theory Spec2Isabelle
  imports Complex_Main
begin

section \<open>Bottom edge range (ucbottomedgerange.cpp)\<close>

text \<open>
  \<open>qreal\<close> values (\<open>from\<close>, \<open>to\<close>, the drag ratio, the commit point) are modelled as
  \<open>real\<close>: the code only compares and copies them. Pointers to framework objects
  (components, bindings) are natural numbers, \<open>Q_NULLPTR\<close> is \<open>None\<close>.
\<close>

datatype QUrl = QUrl (isValid: bool) (url_text: string)

type_synonym QQmlComponent = nat
type_synonym QQmlAbstractBinding = nat

text \<open>A QML property holds either a plain value or a binding.\<close>

datatype 'v property_state = Value 'v | Binding QQmlAbstractBinding

datatype edge_call = Commit | PositionPanel real

text \<open>
  Modelled from the spec: the class \<open>UCBottomEdge\<close> (ucbottomedge.h, ucbottomedge_p.h) is
  not among the sources. The owning panel object has a commit point, the two content
  properties that a range overrides, and the operations \<open>commit()\<close> and
  \<open>positionPanel(qreal)\<close>, which are recorded in the order they are called.
\<close>

record UCBottomEdge =
  commitPoint :: real
  content :: "QUrl property_state"
  contentComponent :: "QQmlComponent option property_state"
  calls :: "edge_call list"

text \<open>
  Modelled from the spec: the class \<open>PropertyChange\<close> (propertychange_p.h) is not among the
  sources. The spec describes it as a temporary property replacement that is pushed and
  popped: constructing one on a property of a target remembers what the property holds
  (value or binding), \<open>setValue\<close> and \<open>setBinding\<close> write the replacement, and deleting
  it writes the remembered state back. With a null target nothing is remembered or written.
\<close>

datatype 'v PropertyChange = PropertyChange (backup: "'v property_state option")

definition PropertyChange_new ::
  "UCBottomEdge option \<Rightarrow> (UCBottomEdge \<Rightarrow> 'v property_state) \<Rightarrow> 'v PropertyChange" where
  "PropertyChange_new target getter = PropertyChange (map_option getter target)"

definition PropertyChange_setValue ::
  "UCBottomEdge option \<Rightarrow> ('v property_state \<Rightarrow> UCBottomEdge \<Rightarrow> UCBottomEdge) \<Rightarrow> 'v
    \<Rightarrow> UCBottomEdge option" where
  "PropertyChange_setValue target setter v = map_option (setter (Value v)) target"

definition PropertyChange_setBinding ::
  "UCBottomEdge option \<Rightarrow> ('v property_state \<Rightarrow> UCBottomEdge \<Rightarrow> UCBottomEdge)
    \<Rightarrow> QQmlAbstractBinding \<Rightarrow> UCBottomEdge option" where
  "PropertyChange_setBinding target setter b = map_option (setter (Binding b)) target"

definition PropertyChange_delete ::
  "'v PropertyChange \<Rightarrow> UCBottomEdge option
    \<Rightarrow> ('v property_state \<Rightarrow> UCBottomEdge \<Rightarrow> UCBottomEdge) \<Rightarrow> UCBottomEdge option" where
  "PropertyChange_delete change target setter =
     (case backup change of
        None \<Rightarrow> target
      | Some old \<Rightarrow> map_option (setter old) target)"

definition set_content :: "QUrl property_state \<Rightarrow> UCBottomEdge \<Rightarrow> UCBottomEdge" where
  "set_content p e = e\<lparr>content := p\<rparr>"

definition set_contentComponent ::
  "QQmlComponent option property_state \<Rightarrow> UCBottomEdge \<Rightarrow> UCBottomEdge" where
  "set_contentComponent p e = e\<lparr>contentComponent := p\<rparr>"

datatype range_signal = entered | exited | toChanged

text \<open>
  The range object. \<open>m_bottomEdge\<close> points to the owning bottom edge; each range has one
  owner, which is kept inside the record and updated in place. \<open>content_binding\<close> and
  \<open>contentComponent_binding\<close> are what \<open>QQmlPropertyPrivate::binding\<close> returns for the
  range's own \<open>content\<close> and \<open>contentComponent\<close> properties.
\<close>

record UCBottomEdgeRange =
  m_bottomEdge :: "UCBottomEdge option"
  m_url :: QUrl
  content_binding :: "QQmlAbstractBinding option"
  m_component :: "QQmlComponent option"
  contentComponent_binding :: "QQmlAbstractBinding option"
  m_urlBackup :: "QUrl PropertyChange option"
  m_componentBackup :: "QQmlComponent option PropertyChange option"
  m_from :: real
  m_to :: real
  m_enabled :: bool
  m_commitToTop :: bool
  emitted :: "range_signal list"

text \<open>The constructor; \<open>parent\<close> is the result of \<open>qobject_cast<UCBottomEdge*>(parent)\<close>.\<close>

definition UCBottomEdgeRange_new :: "UCBottomEdge option \<Rightarrow> UCBottomEdgeRange" where
  "UCBottomEdgeRange_new parent =
     \<lparr> m_bottomEdge = parent,
       m_url = QUrl False [],
       content_binding = None,
       m_component = None,
       contentComponent_binding = None,
       m_urlBackup = None,
       m_componentBackup = None,
       m_from = 0,
       m_to = - 1,
       m_enabled = True,
       m_commitToTop = False,
       emitted = [] \<rparr>"

definition attachToBottomEdge :: "UCBottomEdgeRange \<Rightarrow> UCBottomEdge \<Rightarrow> UCBottomEdgeRange" where
  "attachToBottomEdge r bottomEdge =
     (let r1 = r\<lparr>m_bottomEdge := Some bottomEdge\<rparr>
      in if m_to r1 \<le> 0
         then r1\<lparr>m_to := commitPoint bottomEdge, emitted := emitted r1 @ [toChanged]\<rparr>
         else r1)"

definition onDragEnded :: "UCBottomEdgeRange \<Rightarrow> UCBottomEdgeRange" where
  "onDragEnded r =
     (case m_bottomEdge r of
        None \<Rightarrow> r
      | Some e \<Rightarrow>
          if m_to r = commitPoint e \<or> m_commitToTop r
          then r\<lparr>m_bottomEdge := Some (e\<lparr>calls := calls e @ [Commit]\<rparr>)\<rparr>
          else r\<lparr>m_bottomEdge := Some (e\<lparr>calls := calls e @ [PositionPanel (m_to r)]\<rparr>)\<rparr>)"

definition dragInSection :: "UCBottomEdgeRange \<Rightarrow> real \<Rightarrow> bool" where
  "dragInSection r dragRatio \<longleftrightarrow> m_enabled r \<and> dragRatio \<ge> m_from r \<and> dragRatio \<le> m_to r"

definition enterSection_url :: "UCBottomEdgeRange \<Rightarrow> UCBottomEdgeRange" where
  "enterSection_url r =
     (if isValid (m_url r)
      then let change = PropertyChange_new (m_bottomEdge r) content
           in (case content_binding r of
                 Some binding \<Rightarrow>
                   r\<lparr>m_urlBackup := Some change,
                     m_bottomEdge := PropertyChange_setBinding (m_bottomEdge r) set_content binding\<rparr>
               | None \<Rightarrow>
                   r\<lparr>m_urlBackup := Some change,
                     m_bottomEdge := PropertyChange_setValue (m_bottomEdge r) set_content (m_url r)\<rparr>)
      else r)"

definition enterSection_component :: "UCBottomEdgeRange \<Rightarrow> UCBottomEdgeRange" where
  "enterSection_component r =
     (if m_component r \<noteq> None
      then let change = PropertyChange_new (m_bottomEdge r) contentComponent
           in (case contentComponent_binding r of
                 Some binding \<Rightarrow>
                   r\<lparr>m_componentBackup := Some change,
                     m_bottomEdge :=
                       PropertyChange_setBinding (m_bottomEdge r) set_contentComponent binding\<rparr>
               | None \<Rightarrow>
                   r\<lparr>m_componentBackup := Some change,
                     m_bottomEdge :=
                       PropertyChange_setValue (m_bottomEdge r) set_contentComponent
                         (m_component r)\<rparr>)
      else r)"

definition enterSection :: "UCBottomEdgeRange \<Rightarrow> UCBottomEdgeRange" where
  "enterSection r =
     enterSection_component (enterSection_url (r\<lparr>emitted := emitted r @ [entered]\<rparr>))"

definition exitSection_component :: "UCBottomEdgeRange \<Rightarrow> UCBottomEdgeRange" where
  "exitSection_component r =
     (case m_componentBackup r of
        Some change \<Rightarrow>
          r\<lparr>m_bottomEdge := PropertyChange_delete change (m_bottomEdge r) set_contentComponent,
            m_componentBackup := None\<rparr>
      | None \<Rightarrow> r)"

definition exitSection_url :: "UCBottomEdgeRange \<Rightarrow> UCBottomEdgeRange" where
  "exitSection_url r =
     (case m_urlBackup r of
        Some change \<Rightarrow>
          r\<lparr>m_bottomEdge := PropertyChange_delete change (m_bottomEdge r) set_content,
            m_urlBackup := None\<rparr>
      | None \<Rightarrow> r)"

definition exitSection :: "UCBottomEdgeRange \<Rightarrow> UCBottomEdgeRange" where
  "exitSection r =
     (let r2 = exitSection_url (exitSection_component r)
      in r2\<lparr>emitted := emitted r2 @ [exited]\<rparr>)"

section \<open>Argument parser (ucarguments.cpp)\<close>

text \<open>
  The \<open>QString\<close> and \<open>QStringList\<close> operations the parser uses, after the Qt
  documentation: \<open>startsWith\<close>, \<open>split\<close> keeping or skipping empty parts (splitting the
  empty string and keeping empty parts gives one empty part), and \<open>join\<close>.
\<close>

definition startsWith :: "string \<Rightarrow> char \<Rightarrow> bool" where
  "startsWith s c = (case s of [] \<Rightarrow> False | x # _ \<Rightarrow> x = c)"

fun split_keep :: "char \<Rightarrow> string \<Rightarrow> string list" where
  "split_keep sep [] = [[]]"
| "split_keep sep (x # xs) =
     (if x = sep then [] # split_keep sep xs
      else (case split_keep sep xs of
              [] \<Rightarrow> [[x]]
            | p # ps \<Rightarrow> (x # p) # ps))"

definition split_skipEmptyParts :: "char \<Rightarrow> string \<Rightarrow> string list" where
  "split_skipEmptyParts sep s = filter (\<lambda>p. p \<noteq> []) (split_keep sep s)"

fun join :: "string list \<Rightarrow> char \<Rightarrow> string" where
  "join [] sep = []"
| "join [p] sep = p"
| "join (p # q # ps) sep = p @ sep # join (q # ps) sep"

text \<open>
  \<open>QHash::operator[]\<close> on a non-const hash returns the stored value and, when the key is
  absent, first inserts a default-constructed (empty) value for it.
\<close>

definition QHash_index ::
  "(string \<rightharpoonup> string list) \<Rightarrow> string \<Rightarrow> string list \<times> (string \<rightharpoonup> string list)" where
  "QHash_index h k = (case h k of None \<Rightarrow> ([], h(k \<mapsto> [])) | Some v \<Rightarrow> (v, h))"

text \<open>
  The local variables of \<open>parseRawArguments\<close>. \<open>expectedArguments\<close> is the function's own
  copy of the table (passed by value), which \<open>expectedArguments[name]\<close> may extend.
\<close>

record parse_state =
  expectedArguments :: "string \<rightharpoonup> string list"
  argumentsValues :: "string \<rightharpoonup> string list"
  name :: string
  vals :: "string list"

text \<open>The two places that insert the values of the previously parsed named argument.\<close>

definition insert_previous :: "parse_state \<Rightarrow> parse_state" where
  "insert_previous s =
     (if name s \<noteq> [] then s\<lparr>argumentsValues := (argumentsValues s)(name s \<mapsto> vals s)\<rparr> else s)"

text \<open>One iteration of the loop, for a token that starts with a dash.\<close>

definition parse_named :: "parse_state \<Rightarrow> string \<Rightarrow> parse_state" where
  "parse_named s rawArgument =
     (let s1 = insert_previous s;
          stripped = join (split_skipEmptyParts (CHR ''-'') rawArgument) (CHR ''-'')
      in (case split_keep (CHR ''='') stripped of
            [] \<Rightarrow> s1
          | n # vs \<Rightarrow> s1\<lparr>name := n, vals := vs\<rparr>))"

text \<open>One iteration of the loop, for a token that does not start with a dash.\<close>

definition parse_value :: "parse_state \<Rightarrow> string \<Rightarrow> parse_state" where
  "parse_value s rawArgument =
     (if name s \<notin> dom (expectedArguments s) \<and> vals s = []
      then s\<lparr>vals := vals s @ [rawArgument]\<rparr>
      else (case QHash_index (expectedArguments s) (name s) of
              (expected, h) \<Rightarrow>
                let s1 = s\<lparr>expectedArguments := h\<rparr>
                in if length (vals s1) < length expected
                   then s1\<lparr>vals := vals s1 @ [rawArgument]\<rparr>
                   else (let s2 = insert_previous s1
                         in (case QHash_index (argumentsValues s2) [] of
                               (unnamed, t) \<Rightarrow>
                                 s2\<lparr>argumentsValues := t([] \<mapsto> unnamed @ [rawArgument])\<rparr>))))"

definition parse_token :: "parse_state \<Rightarrow> string \<Rightarrow> parse_state" where
  "parse_token s rawArgument =
     (if startsWith rawArgument (CHR ''-'') then parse_named s rawArgument
      else parse_value s rawArgument)"

definition parse_init :: "(string \<rightharpoonup> string list) \<Rightarrow> parse_state" where
  "parse_init expected =
     \<lparr> expectedArguments = expected, argumentsValues = Map.empty, name = [], vals = [] \<rparr>"

text \<open>
  The state of the loop after it has gone through \<open>tokens\<close>. The loop starts at the
  second element of \<open>rawArguments\<close>. On an empty list the iterator is incremented
  past the end, which is undefined; the model returns \<open>None\<close> there.
\<close>

definition parse_loop :: "(string \<rightharpoonup> string list) \<Rightarrow> string list \<Rightarrow> parse_state" where
  "parse_loop expected tokens = foldl parse_token (parse_init expected) tokens"

definition parseRawArguments ::
  "string list \<Rightarrow> (string \<rightharpoonup> string list) \<Rightarrow> (string \<rightharpoonup> string list) option" where
  "parseRawArguments rawArguments expected =
     (case rawArguments of
        [] \<Rightarrow> None
      | binary # rest \<Rightarrow> Some (argumentsValues (parse_loop expected rest)))"

text \<open>The values collected so far for the default (empty-name) argument.\<close>

definition unnamed_values :: "parse_state \<Rightarrow> string list" where
  "unnamed_values s = (case argumentsValues s [] of None \<Rightarrow> [] | Some v \<Rightarrow> v)"

text \<open>
  A declared argument: its name and the names of the values it expects (\<open>name()\<close> and
  \<open>valueNames()\<close> of \<open>UCArgument\<close>, whose class is declared in ucargument.h).
\<close>

record UCArgument =
  argument_name :: string
  valueNames :: "string list"

text \<open>
  The \<open>UCArguments\<close> object, together with what it has done to the outside: the lines
  given to \<open>qWarning\<close>, in order, and the code given to \<open>QCoreApplication::exit\<close>, if it
  was called (the call asks the application to leave its event loop with that code and
  returns to the caller). The \<open>qDebug\<close> traces are not recorded.
\<close>

record UCArguments =
  m_defaultArgument :: "UCArgument option"
  m_arguments :: "UCArgument list"
  m_rawArguments :: "string list"
  m_expectedArguments :: "string \<rightharpoonup> string list"
  m_argumentsValues :: "string \<rightharpoonup> string list"
  warnings :: "string list"
  exit_request :: "int option"

text \<open>The constructor; \<open>arguments\<close> is what \<open>QCoreApplication::arguments()\<close> returns.\<close>

definition UCArguments_new :: "string list \<Rightarrow> UCArguments" where
  "UCArguments_new arguments =
     \<lparr> m_defaultArgument = None,
       m_arguments = [],
       m_rawArguments = arguments,
       m_expectedArguments = Map.empty,
       m_argumentsValues = Map.empty,
       warnings = [],
       exit_request = None \<rparr>"

definition buildExpectedArguments :: "UCArgument list \<Rightarrow> (string \<rightharpoonup> string list)" where
  "buildExpectedArguments declaredArguments =
     foldl (\<lambda>expected argument. expected(argument_name argument \<mapsto> valueNames argument))
       Map.empty declaredArguments"

definition appendArguments :: "UCArguments \<Rightarrow> UCArgument \<Rightarrow> UCArguments option" where
  "appendArguments a argument =
     (let a1 = a\<lparr>m_arguments := m_arguments a @ [argument]\<rparr>;
          a2 = a1\<lparr>m_expectedArguments := buildExpectedArguments (m_arguments a1)\<rparr>
      in map_option (\<lambda>table. a2\<lparr>m_argumentsValues := table\<rparr>)
           (parseRawArguments (m_rawArguments a2) (m_expectedArguments a2)))"

definition clearArguments :: "UCArguments \<Rightarrow> UCArguments option" where
  "clearArguments a =
     (let a1 = a\<lparr>m_arguments := [], m_expectedArguments := Map.empty\<rparr>
      in map_option (\<lambda>table. a1\<lparr>m_argumentsValues := table\<rparr>)
           (parseRawArguments (m_rawArguments a1) (m_expectedArguments a1)))"

text \<open>
  The messages are printed through \<open>c_str()\<close>, that is up to the first NUL character.
  \<open>m_rawArguments[0]\<close> on an empty list is out of range; the model returns \<open>None\<close> there.
\<close>

definition c_str :: "string \<Rightarrow> string" where
  "c_str s = takeWhile (\<lambda>c. c \<noteq> CHR 0x00) s"

definition endl :: string where
  "endl = [CHR 0x0A]"

definition quitAndPrintUsage :: "UCArguments \<Rightarrow> string \<Rightarrow> UCArguments option" where
  "quitAndPrintUsage a errorMessage =
     (case m_rawArguments a of
        [] \<Rightarrow> None
      | applicationBinary # _ \<Rightarrow>
          let usage = ''Usage: '' @ applicationBinary @ endl @ ''Options:'' @ endl
          in Some (a\<lparr>warnings := warnings a @ [c_str errorMessage, c_str usage],
                    exit_request := Some (- 1)\<rparr>))"

section \<open>Theme update broadcast (ucitemextension.cpp)\<close>

text \<open>
  An item of the visual tree: its identity, whether it is a \<open>UCStyledItemBase\<close> (the
  \<open>qobject_cast\<close> succeeds), and its child items in order.
\<close>

datatype QQuickItem = QQuickItem (ident: nat) (isStyledItem: bool) (childItems: "QQuickItem list")

type_synonym UCStyledItemBase = nat
type_synonym UCTheme = nat

datatype event_type = styledItemEventId | themeEventId

datatype UCThemeUpdateEvent =
  UCThemeUpdateEvent (eventType: event_type) (m_ascendantStyled: "UCStyledItemBase option")
    (m_theme: "UCTheme option")

definition styledEvent :: "UCStyledItemBase option \<Rightarrow> UCThemeUpdateEvent" where
  "styledEvent newStyled = UCThemeUpdateEvent styledItemEventId newStyled None"

definition themeEvent :: "UCTheme option \<Rightarrow> UCThemeUpdateEvent" where
  "themeEvent theme = UCThemeUpdateEvent themeEventId None theme"

text \<open>
  \<open>ASYNC_BROADCAST\<close> is not defined, so each event is delivered with \<open>sendEvent\<close>, which
  returns after the receiver has handled it. A broadcast returns the deliveries it made,
  in order: the receiver and the event. What a receiver does with the event is outside
  these sources.
\<close>

type_synonym delivery = "nat \<times> UCThemeUpdateEvent"

fun broadcastAscendantUpdate :: "QQuickItem \<Rightarrow> UCStyledItemBase option \<Rightarrow> delivery list" where
  "broadcastAscendantUpdate (QQuickItem i st cs) ascendantStyled =
     concat (map (\<lambda>child.
        (ident child, styledEvent ascendantStyled) #
        (if length (childItems child) > 0
         then broadcastAscendantUpdate child ascendantStyled else [])) cs)"

fun broadcastThemeUpdate :: "QQuickItem \<Rightarrow> UCTheme option \<Rightarrow> delivery list" where
  "broadcastThemeUpdate (QQuickItem i st cs) theme =
     concat (map (\<lambda>child.
        (ident child, themeEvent theme) #
        (if length (childItems child) > 0 \<and> \<not> isStyledItem child
         then broadcastThemeUpdate child theme else [])) cs)"

definition handleParentChanged :: "QQuickItem \<Rightarrow> QQuickItem option \<Rightarrow> delivery list" where
  "handleParentChanged m_item newParent = broadcastAscendantUpdate m_item None"

text \<open>The items strictly below an item, and the identities of a whole subtree.\<close>

inductive descendant :: "QQuickItem \<Rightarrow> QQuickItem \<Rightarrow> bool" where
  child: "c \<in> set (childItems t) \<Longrightarrow> descendant c t"
| deeper: "c \<in> set (childItems t) \<Longrightarrow> descendant d c \<Longrightarrow> descendant d t"

code_pred descendant .

fun idents :: "QQuickItem \<Rightarrow> nat list" where
  "idents (QQuickItem i st cs) = i # concat (map idents cs)"

section \<open>Concrete inputs\<close>

text \<open>
  A bottom edge, a section attached to it, a declared argument with two expected values,
  and a small visual tree, used below.
\<close>

definition example_edge :: UCBottomEdge where
  "example_edge =
     \<lparr> commitPoint = 1, content = Value (QUrl True ''Main.qml''),
       contentComponent = Value None, calls = [] \<rparr>"

definition example_range :: UCBottomEdgeRange where
  "example_range =
     (UCBottomEdgeRange_new (Some example_edge))\<lparr>m_url := QUrl True ''Section.qml'', m_to := 1 / 2\<rparr>"

definition size_argument :: UCArgument where
  "size_argument = \<lparr> argument_name = ''size'', valueNames = [''width'', ''height''] \<rparr>"

definition styled_child :: QQuickItem where
  "styled_child = QQuickItem 1 True [QQuickItem 2 False []]"

definition example_tree :: QQuickItem where
  "example_tree = QQuickItem 0 False [styled_child, QQuickItem 3 False []]"

section \<open>Properties of the bottom edge range\<close>

text \<open>
  C1, as the code has it: \<open>dragInSection\<close> returns true if and only if the section is
  enabled and \<open>from \<le> ratio \<le> to\<close>.
\<close>

theorem dragInSection_iff:
  "dragInSection r dragRatio \<longleftrightarrow> m_enabled r \<and> m_from r \<le> dragRatio \<and> dragRatio \<le> m_to r"
  by (simp add: dragInSection_def)

text \<open>
  C1 as stated (true if and only if \<open>from \<le> ratio \<le> to\<close>) fails for a disabled section:
  with \<open>from = 0\<close>, \<open>to = 1\<close> and the ratio \<open>1/2\<close> inside the interval, the test is false.
\<close>

theorem dragInSection_disabled_counterexample:
  "dragInSection ((UCBottomEdgeRange_new None)\<lparr>m_to := 1, m_enabled := False\<rparr>) (1 / 2)
     \<noteq> (m_from ((UCBottomEdgeRange_new None)\<lparr>m_to := 1, m_enabled := False\<rparr>) \<le> 1 / 2
        \<and> 1 / 2 \<le> m_to ((UCBottomEdgeRange_new None)\<lparr>m_to := 1, m_enabled := False\<rparr>))"
  by (simp add: dragInSection_def UCBottomEdgeRange_new_def)

lemmas section_defs = exitSection_def enterSection_def enterSection_url_def
  enterSection_component_def exitSection_url_def exitSection_component_def Let_def
  PropertyChange_new_def PropertyChange_setValue_def PropertyChange_setBinding_def
  PropertyChange_delete_def set_content_def set_contentComponent_def

text \<open>
  C2: for a section attached to a bottom edge, \<open>enterSection\<close> followed by \<open>exitSection\<close>
  leaves the bottom edge, and so its \<open>content\<close> and \<open>contentComponent\<close> properties (value
  or binding), exactly as it was before \<open>enterSection\<close>, and no backup is left behind. In
  between, each property for which the section has an override holds that override (the
  section's binding if it has one, its value otherwise). The section must not hold a
  backup that \<open>enterSection\<close> does not replace: a backup exists only for a property that
  the section overrides, as is the case after the constructor and after every
  \<open>exitSection\<close>.
\<close>

theorem enter_exit_restores:
  assumes attached: "m_bottomEdge r = Some e"
      and url: "isValid (m_url r) \<or> m_urlBackup r = None"
      and comp: "m_component r \<noteq> None \<or> m_componentBackup r = None"
  shows "m_bottomEdge (exitSection (enterSection r)) = Some e
       \<and> m_urlBackup (exitSection (enterSection r)) = None
       \<and> m_componentBackup (exitSection (enterSection r)) = None
       \<and> (isValid (m_url r) \<longrightarrow>
            map_option content (m_bottomEdge (enterSection r)) =
              Some (case content_binding r of Some b \<Rightarrow> Binding b | None \<Rightarrow> Value (m_url r)))
       \<and> (m_component r \<noteq> None \<longrightarrow>
            map_option contentComponent (m_bottomEdge (enterSection r)) =
              Some (case contentComponent_binding r of
                      Some b \<Rightarrow> Binding b | None \<Rightarrow> Value (m_component r)))"
proof (cases "isValid (m_url r)")
  case True
  show ?thesis
  proof (cases "m_component r")
    case None
    with True attached comp show ?thesis
      by (cases "content_binding r") (simp_all add: section_defs)
  next
    case (Some c)
    with True attached show ?thesis
      by (cases "content_binding r"; cases "contentComponent_binding r")
        (simp_all add: section_defs)
  qed
next
  case False
  with url have nb: "m_urlBackup r = None" by simp
  show ?thesis
  proof (cases "m_component r")
    case None
    with False nb attached comp show ?thesis
      by (simp add: section_defs)
  next
    case (Some c)
    with False nb attached show ?thesis
      by (cases "contentComponent_binding r") (simp_all add: section_defs)
  qed
qed

text \<open>
  The example section overrides \<open>content\<close>: inside the section the bottom edge shows
  \<open>Section.qml\<close>, after leaving it \<open>Main.qml\<close> again.
\<close>

theorem enter_exit_restores_witness:
  "m_bottomEdge example_range = Some example_edge
   \<and> isValid (m_url example_range)
   \<and> m_componentBackup example_range = None
   \<and> map_option content (m_bottomEdge (enterSection example_range))
       = Some (Value (QUrl True ''Section.qml''))
   \<and> map_option content (m_bottomEdge (exitSection (enterSection example_range)))
       = Some (Value (QUrl True ''Main.qml''))
   \<and> m_urlBackup (exitSection (enterSection example_range)) = None"
proof -
  have a: "m_bottomEdge example_range = Some example_edge"
    by (simp add: example_range_def UCBottomEdgeRange_new_def)
  have u: "isValid (m_url example_range)"
    by (simp add: example_range_def)
  have c: "m_componentBackup example_range = None"
    by (simp add: example_range_def UCBottomEdgeRange_new_def)
  have b: "content_binding example_range = None"
    by (simp add: example_range_def UCBottomEdgeRange_new_def)
  have m: "m_url example_range = QUrl True ''Section.qml''"
    by (simp add: example_range_def)
  have "content example_edge = Value (QUrl True ''Main.qml'')"
    by (simp add: example_edge_def)
  with enter_exit_restores [of example_range example_edge] a u c b m show ?thesis
    by simp
qed

text \<open>
  C3, as the code has it: a range is constructed with \<open>from = 0\<close> and \<open>to = -1\<close>, the
  value that stands for "not set yet". \<open>attachToBottomEdge\<close> never changes \<open>from\<close> and
  replaces \<open>to\<close> by the bottom edge's commit point exactly when \<open>to \<le> 0\<close>. So a range
  with \<open>0 \<le> from < to\<close> keeps both values and \<open>to > from\<close>, and a freshly constructed range
  attached to a bottom edge with a positive commit point has \<open>to > from\<close> afterwards.
\<close>

theorem range_bounds:
  "m_from (UCBottomEdgeRange_new parent) = 0 \<and> m_to (UCBottomEdgeRange_new parent) = - 1
   \<and> m_from (attachToBottomEdge r e) = m_from r
   \<and> m_to (attachToBottomEdge r e) = (if m_to r \<le> 0 then commitPoint e else m_to r)
   \<and> (0 \<le> m_from r \<and> m_from r < m_to r \<longrightarrow>
        m_to (attachToBottomEdge r e) = m_to r
        \<and> m_from (attachToBottomEdge r e) < m_to (attachToBottomEdge r e))
   \<and> (0 < commitPoint e \<longrightarrow>
        m_from (attachToBottomEdge (UCBottomEdgeRange_new parent) e)
          < m_to (attachToBottomEdge (UCBottomEdgeRange_new parent) e))"
  by (simp add: UCBottomEdgeRange_new_def attachToBottomEdge_def Let_def)

theorem range_bounds_witness:
  "0 < commitPoint example_edge
   \<and> m_from (attachToBottomEdge (UCBottomEdgeRange_new None) example_edge) = 0
   \<and> m_to (attachToBottomEdge (UCBottomEdgeRange_new None) example_edge) = 1
   \<and> 0 \<le> m_from example_range \<and> m_from example_range < m_to example_range
   \<and> m_to (attachToBottomEdge example_range example_edge) = 1 / 2"
proof -
  have c: "commitPoint example_edge = 1"
    by (simp add: example_edge_def)
  have f: "m_from example_range = 0" and t: "m_to example_range = 1 / 2"
    by (simp_all add: example_range_def UCBottomEdgeRange_new_def)
  from range_bounds [of None example_range example_edge]
    range_bounds [of None "UCBottomEdgeRange_new None" example_edge] c f t
  show ?thesis by simp
qed

text \<open>
  C3 as stated fails at construction: a new range has \<open>from = 0\<close> and \<open>to = -1\<close>. Nor does
  \<open>attachToBottomEdge\<close> keep \<open>to > from\<close> for every range: with \<open>from = -2\<close>, \<open>to = -1\<close> and
  a commit point of \<open>-3\<close> it holds before and not after.
\<close>

theorem range_invariant_counterexample:
  "\<not> m_from (UCBottomEdgeRange_new None) < m_to (UCBottomEdgeRange_new None)
   \<and> m_from ((UCBottomEdgeRange_new None)\<lparr>m_from := - 2\<rparr>)
       < m_to ((UCBottomEdgeRange_new None)\<lparr>m_from := - 2\<rparr>)
   \<and> \<not> m_from (attachToBottomEdge ((UCBottomEdgeRange_new None)\<lparr>m_from := - 2\<rparr>)
              (example_edge\<lparr>commitPoint := - 3\<rparr>))
        < m_to (attachToBottomEdge ((UCBottomEdgeRange_new None)\<lparr>m_from := - 2\<rparr>)
              (example_edge\<lparr>commitPoint := - 3\<rparr>))"
  by (simp add: UCBottomEdgeRange_new_def attachToBottomEdge_def Let_def)

text \<open>
  C6: when the drag ends in a section attached to a bottom edge, the bottom edge is
  committed if the section's \<open>to\<close> equals the commit point or \<open>commitToTop\<close> is set, and
  otherwise its panel is positioned at the section's \<open>to\<close>; nothing else changes.
\<close>

theorem onDragEnded_attached:
  "m_bottomEdge r = Some e \<Longrightarrow>
     onDragEnded r =
       r\<lparr>m_bottomEdge := Some (e\<lparr>calls := calls e @
          [if m_to r = commitPoint e \<or> m_commitToTop r
           then Commit else PositionPanel (m_to r)]\<rparr>)\<rparr>"
  by (simp add: onDragEnded_def)

theorem onDragEnded_attached_witness:
  "m_bottomEdge example_range = Some example_edge
   \<and> map_option calls (m_bottomEdge (onDragEnded example_range)) = Some [PositionPanel (1 / 2)]
   \<and> map_option calls (m_bottomEdge (onDragEnded (example_range\<lparr>m_commitToTop := True\<rparr>)))
       = Some [Commit]"
proof -
  have a: "m_bottomEdge example_range = Some example_edge"
    by (simp add: example_range_def UCBottomEdgeRange_new_def)
  have t: "m_to example_range = 1 / 2" "\<not> m_commitToTop example_range"
    by (simp_all add: example_range_def UCBottomEdgeRange_new_def)
  have e: "commitPoint example_edge = 1" "calls example_edge = []"
    by (simp_all add: example_edge_def)
  from onDragEnded_attached [of example_range example_edge]
    onDragEnded_attached [of "example_range\<lparr>m_commitToTop := True\<rparr>" example_edge] a t e
  show ?thesis by simp
qed

section \<open>Properties of the argument parser\<close>

lemmas parse_defs = parseRawArguments_def parse_loop_def parse_token_def parse_named_def
  parse_value_def parse_init_def insert_previous_def QHash_index_def startsWith_def
  split_skipEmptyParts_def Let_def unnamed_values_def

text \<open>\<open>split\<close> keeping empty parts never returns the empty list, so \<open>takeAt(0)\<close> is safe.\<close>

lemma split_keep_nonempty: "split_keep sep s \<noteq> []"
  by (induction s) (auto split: list.splits)

text \<open>
  C4 on the code: the values of a named argument are inserted into the table only when a
  later token makes the loop insert them; nothing inserts them after the loop. With
  \<open>-a=1 -a=2\<close> the table ends with the values of the first occurrence.
\<close>

theorem last_occurrence_not_inserted:
  "parseRawArguments [''app'', ''-a=1'', ''-a=2''] Map.empty = Some [''a'' \<mapsto> [''1'']]"
  by (simp add: parse_defs)

text \<open>
  C5 on the code: splitting on the dash, skipping empty parts and joining with a dash
  removes the leading dashes, and also shortens every later run of dashes to one dash.
  The token \<open>--title=a--b\<close> gives the name \<open>title\<close> and the value \<open>a-b\<close>.
\<close>

theorem dash_runs_collapsed:
  "name (parse_loop Map.empty [''--title=a--b'']) = ''title''
   \<and> vals (parse_loop Map.empty [''--title=a--b'']) = [''a-b'']
   \<and> parseRawArguments [''app'', ''--title=a--b'', ''--x''] Map.empty
       = Some [''title'' \<mapsto> [''a-b'']]"
  by (simp add: parse_defs)

lemma c_str_id: "CHR 0x00 \<notin> set s \<Longrightarrow> c_str s = s"
  unfolding c_str_def by (induction s) auto

lemma parseRawArguments_total:
  "rawArguments \<noteq> [] \<Longrightarrow> \<exists>table. parseRawArguments rawArguments expected = Some table"
  by (cases rawArguments) (simp_all add: parseRawArguments_def)

text \<open>
  C8, as the code has it: \<open>quitAndPrintUsage\<close>, when it is called with an error message,
  prints the error message and then the usage text made of \<open>Usage: \<close>, the application
  binary (the first raw argument), a line break, \<open>Options:\<close> and a line break, and calls
  \<open>QCoreApplication::exit(-1)\<close>. The parser never calls it: for every declared argument
  and every raw argument list, \<open>appendArguments\<close> and \<open>clearArguments\<close> return with a
  table, print no warning and request no exit. The strings are C strings (no NUL
  character), as the messages are printed through \<open>c_str()\<close>.
\<close>

theorem usage_only_when_called:
  assumes raw: "m_rawArguments a = applicationBinary # rest"
      and bin: "CHR 0x00 \<notin> set applicationBinary"
      and msg: "CHR 0x00 \<notin> set errorMessage"
  shows "(\<exists>a'. appendArguments a argument = Some a'
            \<and> warnings a' = warnings a \<and> exit_request a' = exit_request a)
       \<and> (\<exists>a'. clearArguments a = Some a'
            \<and> warnings a' = warnings a \<and> exit_request a' = exit_request a)
       \<and> quitAndPrintUsage a errorMessage =
           Some (a\<lparr>warnings := warnings a @
                     [errorMessage,
                      ''Usage: '' @ applicationBinary @ [CHR 0x0A] @ ''Options:'' @ [CHR 0x0A]],
                   exit_request := Some (- 1)\<rparr>)"
proof -
  from raw have ne: "m_rawArguments a \<noteq> []" by simp
  have app: "\<exists>a'. appendArguments a argument = Some a'
            \<and> warnings a' = warnings a \<and> exit_request a' = exit_request a"
    using parseRawArguments_total [OF ne, of "buildExpectedArguments (m_arguments a @ [argument])"]
    by (auto simp: appendArguments_def Let_def)
  have clr: "\<exists>a'. clearArguments a = Some a'
            \<and> warnings a' = warnings a \<and> exit_request a' = exit_request a"
    using parseRawArguments_total [OF ne, of Map.empty]
    by (auto simp: clearArguments_def Let_def)
  have "CHR 0x00 \<notin> set (''Usage: '' @ applicationBinary @ endl @ ''Options:'' @ endl)"
    using bin by (simp add: endl_def)
  then have "c_str (''Usage: '' @ applicationBinary @ endl @ ''Options:'' @ endl)
          = ''Usage: '' @ applicationBinary @ endl @ ''Options:'' @ endl"
    by (rule c_str_id)
  moreover have "c_str errorMessage = errorMessage"
    using msg by (rule c_str_id)
  ultimately have "quitAndPrintUsage a errorMessage =
           Some (a\<lparr>warnings := warnings a @
                     [errorMessage,
                      ''Usage: '' @ applicationBinary @ [CHR 0x0A] @ ''Options:'' @ [CHR 0x0A]],
                   exit_request := Some (- 1)\<rparr>)"
    using raw by (simp add: quitAndPrintUsage_def endl_def)
  with app clr show ?thesis by blast
qed

lemma size_expected:
  "buildExpectedArguments [size_argument] = [''size'' \<mapsto> [''width'', ''height'']]"
  by (simp add: buildExpectedArguments_def size_argument_def)

text \<open>
  C8 as stated fails on a malformed command line: \<open>size\<close> is declared with two values
  and \<open>--size 10\<close> gives one. Parsing it prints nothing, requests no exit and returns
  an empty table.
\<close>

theorem malformed_arguments_counterexample:
  "map_option m_argumentsValues
     (appendArguments (UCArguments_new [''app'', ''--size'', ''10'']) size_argument)
     = Some Map.empty
   \<and> map_option warnings
       (appendArguments (UCArguments_new [''app'', ''--size'', ''10'']) size_argument) = Some []
   \<and> map_option exit_request
       (appendArguments (UCArguments_new [''app'', ''--size'', ''10'']) size_argument)
       = Some None"
  by (simp add: appendArguments_def UCArguments_new_def size_expected parse_defs)

theorem usage_only_when_called_witness:
  "m_rawArguments (UCArguments_new [''app'', ''--size'', ''10'']) = ''app'' # [''--size'', ''10'']
   \<and> CHR 0x00 \<notin> set ''app'' \<and> CHR 0x00 \<notin> set ''bad''
   \<and> map_option warnings (quitAndPrintUsage (UCArguments_new [''app'', ''--size'', ''10'']) ''bad'')
       = Some [''bad'', ''Usage: '' @ ''app'' @ [CHR 0x0A] @ ''Options:'' @ [CHR 0x0A]]
   \<and> map_option exit_request
       (quitAndPrintUsage (UCArguments_new [''app'', ''--size'', ''10'']) ''bad'') = Some (Some (- 1))
   \<and> map_option warnings (clearArguments (UCArguments_new [''app'', ''--size'', ''10''])) = Some []"
proof -
  have r: "m_rawArguments (UCArguments_new [''app'', ''--size'', ''10''])
             = ''app'' # [''--size'', ''10'']"
    and w: "warnings (UCArguments_new [''app'', ''--size'', ''10'']) = []"
    by (simp_all add: UCArguments_new_def)
  from usage_only_when_called [of "UCArguments_new [''app'', ''--size'', ''10'']" "''app''"
      "[''--size'', ''10'']" "''bad''" size_argument] r w
  show ?thesis by auto
qed

text \<open>
  A token without a leading dash is taken as the first value of the current name when
  the name is absent from the local table and has no value yet.
\<close>

lemma parse_value_first:
  assumes "\<not> startsWith t (CHR ''-'')"
      and "expectedArguments s (name s) = None" and "vals s = []"
  shows "parse_token s t = s\<lparr>vals := [t]\<rparr>"
  using assms by (simp add: parse_token_def parse_value_def domIff)

text \<open>
  Otherwise, when the current name has no expected values in the local table, the token
  goes to the default argument, and the values of the current name are inserted
  unchanged (line 162).
\<close>

lemma parse_value_overflow:
  assumes "\<not> startsWith t (CHR ''-'')"
      and "\<not> (expectedArguments s (name s) = None \<and> vals s = [])"
      and "expectedArguments s (name s) = None \<or> expectedArguments s (name s) = Some []"
  shows "name (parse_token s t) = name s"
    and "vals (parse_token s t) = vals s"
    and "expectedArguments (parse_token s t) (name s) = Some []"
    and "argumentsValues (parse_token s t) key =
           (if key = [] then Some (unnamed_values s @ [t])
            else if key = name s then Some (vals s)
            else argumentsValues s key)"
  using assms
  by (auto simp: parse_token_def parse_value_def QHash_index_def insert_previous_def
      unnamed_values_def domIff Let_def split: option.splits)

lemma overflow_run:
  assumes "\<forall>t\<in>set ts. \<not> startsWith t (CHR ''-'')"
      and "\<not> (expectedArguments s (name s) = None \<and> vals s = [])"
      and "expectedArguments s (name s) = None \<or> expectedArguments s (name s) = Some []"
      and "ts \<noteq> []"
  shows "name (foldl parse_token s ts) = name s
       \<and> vals (foldl parse_token s ts) = vals s
       \<and> (\<forall>key. argumentsValues (foldl parse_token s ts) key =
           (if key = [] then Some (unnamed_values s @ ts)
            else if key = name s then Some (vals s)
            else argumentsValues s key))"
  using assms
proof (induction ts arbitrary: s)
  case Nil
  then show ?case by simp
next
  case (Cons t ts)
  from Cons.prems(1) have nd: "\<not> startsWith t (CHR ''-'')"
    and rest: "\<forall>t\<in>set ts. \<not> startsWith t (CHR ''-'')" by simp_all
  define s1 where "s1 = parse_token s t"
  note step = parse_value_overflow [OF nd Cons.prems(2) Cons.prems(3), folded s1_def]
  show ?case
  proof (cases "ts = []")
    case True
    with step show ?thesis by (simp add: s1_def [symmetric])
  next
    case False
    have u1: "unnamed_values s1 = unnamed_values s @ [t]"
      using step(4) [of "[]"] by (simp add: unnamed_values_def)
    have a: "\<not> (expectedArguments s1 (name s1) = None \<and> vals s1 = [])"
      and b: "expectedArguments s1 (name s1) = None \<or> expectedArguments s1 (name s1) = Some []"
      using step(1,3) by simp_all
    from Cons.IH [OF rest a b False] step u1 show ?thesis
      by (simp add: s1_def [symmetric])
  qed
qed

lemma parse_value_run:
  assumes nd: "\<forall>t\<in>set ts. \<not> startsWith t (CHR ''-'')"
      and ok: "expectedArguments s (name s) = None \<or> expectedArguments s (name s) = Some []"
      and k: "k = (if expectedArguments s (name s) = None \<and> vals s = [] then 1 else 0)"
  shows "name (foldl parse_token s ts) = name s
       \<and> vals (foldl parse_token s ts) = vals s @ take k ts
       \<and> (\<forall>key. argumentsValues (foldl parse_token s ts) key =
           (if length ts \<le> k then argumentsValues s key
            else if key = [] then Some (unnamed_values s @ drop k ts)
            else if key = name s then Some (vals s @ take k ts)
            else argumentsValues s key))"
proof (cases "expectedArguments s (name s) = None \<and> vals s = []")
  case False
  then have k0: "k = 0" using k by simp
  show ?thesis
  proof (cases "ts = []")
    case True
    then show ?thesis by simp
  next
    case ne: False
    from overflow_run [OF nd False ok ne] k0 ne show ?thesis by simp
  qed
next
  case True
  then have k1: "k = 1" using k by simp
  show ?thesis
  proof (cases ts)
    case Nil
    then show ?thesis by simp
  next
    case (Cons t ts')
    from nd Cons have ndt: "\<not> startsWith t (CHR ''-'')"
      and rest: "\<forall>t\<in>set ts'. \<not> startsWith t (CHR ''-'')" by simp_all
    from True have step: "parse_token s t = s\<lparr>vals := [t]\<rparr>"
      using parse_value_first [OF ndt] by simp
    show ?thesis
    proof (cases "ts' = []")
      case True
      with Cons step k1 \<open>expectedArguments s (name s) = None \<and> vals s = []\<close> show ?thesis
        by simp
    next
      case ne: False
      have a: "\<not> (expectedArguments (s\<lparr>vals := [t]\<rparr>) (name (s\<lparr>vals := [t]\<rparr>)) = None
                 \<and> vals (s\<lparr>vals := [t]\<rparr>) = [])" by simp
      have b: "expectedArguments (s\<lparr>vals := [t]\<rparr>) (name (s\<lparr>vals := [t]\<rparr>)) = None
             \<or> expectedArguments (s\<lparr>vals := [t]\<rparr>) (name (s\<lparr>vals := [t]\<rparr>)) = Some []"
        using ok by simp
      from overflow_run [OF rest a b ne] Cons step k1 ne True show ?thesis
        by (simp add: unnamed_values_def)
    qed
  qed
qed

text \<open>The next token with a leading dash inserts the values of the current name.\<close>

lemma parse_named_table:
  "argumentsValues (parse_named s t) key =
     (if key = name s \<and> name s \<noteq> [] then Some (vals s) else argumentsValues s key)"
  by (simp add: parse_named_def insert_previous_def Let_def split: list.splits)


text \<open>
  The local copy of the expected-arguments table differs from the table passed in only
  by names that \<open>expectedArguments[name]\<close> has added with no expected values.
\<close>

lemma parse_named_expected:
  "expectedArguments (parse_named s t) = expectedArguments s"
  by (simp add: parse_named_def insert_previous_def Let_def split: list.splits)

lemma parse_value_expected:
  "expectedArguments (parse_value s t) k = expectedArguments s k
   \<or> (expectedArguments s k = None \<and> expectedArguments (parse_value s t) k = Some [])"
  by (simp add: parse_value_def QHash_index_def insert_previous_def Let_def
      split: option.splits)

lemma parse_token_expected:
  assumes "expectedArguments s k = v \<or> (v = None \<and> expectedArguments s k = Some [])"
  shows "expectedArguments (parse_token s t) k = v
       \<or> (v = None \<and> expectedArguments (parse_token s t) k = Some [])"
proof (cases "startsWith t (CHR ''-'')")
  case True
  with assms show ?thesis by (simp add: parse_token_def parse_named_expected)
next
  case False
  with assms parse_value_expected [of s t k] show ?thesis
    by (auto simp: parse_token_def)
qed

lemma foldl_parse_token_expected:
  assumes "expectedArguments s k = v \<or> (v = None \<and> expectedArguments s k = Some [])"
  shows "expectedArguments (foldl parse_token s ts) k = v
       \<or> (v = None \<and> expectedArguments (foldl parse_token s ts) k = Some [])"
  using assms
proof (induction ts arbitrary: s)
  case Nil
  then show ?case by simp
next
  case (Cons t ts)
  have "expectedArguments (parse_token s t) k = v
       \<or> (v = None \<and> expectedArguments (parse_token s t) k = Some [])"
    using Cons.prems by (rule parse_token_expected)
  then show ?case using Cons.IH by simp
qed

lemma parse_loop_expected:
  "expectedArguments (parse_loop expected ts) k = expected k
   \<or> (expected k = None \<and> expectedArguments (parse_loop expected ts) k = Some [])"
  unfolding parse_loop_def
  by (rule foldl_parse_token_expected) (simp add: parse_init_def)

lemma parseRawArguments_loop:
  "parseRawArguments (binary # tokens) expected
     = Some (argumentsValues (parse_loop expected tokens))"
  by (simp add: parseRawArguments_def)

text \<open>
  C9: let the command line, after the binary, start with \<open>pre\<close>, then a token \<open>d\<close> that
  starts with a dash and names an argument that is not in the expected-arguments table,
  then the tokens \<open>ts\<close> without a leading dash. At most one token of \<open>ts\<close> (\<open>k \<le> 1\<close>, its
  first) is added to the values of that argument. If the command line ends after \<open>ts\<close>,
  the returned table \<open>T2\<close> is the table \<open>T1\<close> returned for the command line without \<open>ts\<close>,
  except that, when \<open>ts\<close> has more than \<open>k\<close> tokens, the default (empty-name) argument has
  got all tokens of \<open>ts\<close> after the first \<open>k\<close> appended, in order, and the named argument
  holds its initial values followed by the first \<open>k\<close> tokens. If one more token \<open>d2\<close> with
  a leading dash follows, the returned table \<open>T3\<close> is \<open>T2\<close> with exactly these values
  for the named argument.
\<close>

theorem unexpected_named_one_value:
  assumes "startsWith d (CHR ''-'')"
      and "\<forall>t\<in>set ts. \<not> startsWith t (CHR ''-'')"
      and "startsWith d2 (CHR ''-'')"
      and "name (parse_loop expected (pre @ [d])) \<notin> dom expected"
  shows "\<exists>k\<le>1. \<exists>T1 T2 T3.
           parseRawArguments (binary # pre @ [d]) expected = Some T1
         \<and> parseRawArguments (binary # pre @ [d] @ ts) expected = Some T2
         \<and> parseRawArguments (binary # pre @ [d] @ ts @ [d2]) expected = Some T3
         \<and> name (parse_loop expected (pre @ [d] @ ts)) = name (parse_loop expected (pre @ [d]))
         \<and> vals (parse_loop expected (pre @ [d] @ ts)) =
             vals (parse_loop expected (pre @ [d])) @ take k ts
         \<and> (\<forall>key. T2 key =
               (if length ts \<le> k then T1 key
                else if key = []
                  then Some ((case T1 [] of None \<Rightarrow> [] | Some v \<Rightarrow> v) @ drop k ts)
                else if key = name (parse_loop expected (pre @ [d]))
                  then Some (vals (parse_loop expected (pre @ [d])) @ take k ts)
                else T1 key))
         \<and> (\<forall>key. T3 key =
               (if key = name (parse_loop expected (pre @ [d])) \<and> key \<noteq> []
                then Some (vals (parse_loop expected (pre @ [d])) @ take k ts)
                else T2 key))"
proof -
  define s1 where "s1 = parse_loop expected (pre @ [d])"
  define s2 where "s2 = parse_loop expected (pre @ [d] @ ts)"
  define s3 where "s3 = parse_loop expected (pre @ [d] @ ts @ [d2])"
  have s2: "s2 = foldl parse_token s1 ts"
    unfolding s1_def s2_def parse_loop_def by simp
  have s3: "s3 = parse_named s2 d2"
    unfolding s2_def s3_def parse_loop_def using assms(3) by (simp add: parse_token_def)
  from assms(4) have "expected (name s1) = None"
    unfolding s1_def by (simp add: domIff)
  with parse_loop_expected [of expected "pre @ [d]" "name s1"]
  have ok: "expectedArguments s1 (name s1) = None \<or> expectedArguments s1 (name s1) = Some []"
    unfolding s1_def by auto
  define k :: nat where
    "k = (if expectedArguments s1 (name s1) = None \<and> vals s1 = [] then 1 else 0)"
  have k1: "k \<le> 1" unfolding k_def by simp
  from parse_value_run [OF assms(2) ok k_def]
  have run: "name s2 = name s1" "vals s2 = vals s1 @ take k ts"
    "\<And>key. argumentsValues s2 key =
           (if length ts \<le> k then argumentsValues s1 key
            else if key = [] then Some (unnamed_values s1 @ drop k ts)
            else if key = name s1 then Some (vals s1 @ take k ts)
            else argumentsValues s1 key)"
    unfolding s2 by simp_all
  have next_dash: "\<And>key. argumentsValues s3 key =
      (if key = name s1 \<and> key \<noteq> [] then Some (vals s1 @ take k ts) else argumentsValues s2 key)"
    unfolding s3 parse_named_table run(1) run(2) by auto
  have "parseRawArguments (binary # pre @ [d]) expected = Some (argumentsValues s1)"
    "parseRawArguments (binary # pre @ [d] @ ts) expected = Some (argumentsValues s2)"
    "parseRawArguments (binary # pre @ [d] @ ts @ [d2]) expected = Some (argumentsValues s3)"
    unfolding s1_def s2_def s3_def by (rule parseRawArguments_loop)+
  moreover have "\<forall>key. argumentsValues s2 key =
               (if length ts \<le> k then argumentsValues s1 key
                else if key = []
                  then Some ((case argumentsValues s1 [] of None \<Rightarrow> [] | Some v \<Rightarrow> v) @ drop k ts)
                else if key = name s1 then Some (vals s1 @ take k ts)
                else argumentsValues s1 key)"
    using run(3) by (simp add: unnamed_values_def)
  moreover have "\<forall>key. argumentsValues s3 key =
      (if key = name s1 \<and> key \<noteq> [] then Some (vals s1 @ take k ts) else argumentsValues s2 key)"
    using next_dash by simp
  ultimately show ?thesis
    using k1 run(1) run(2) unfolding s1_def [symmetric] s2_def [symmetric] by blast
qed

text \<open>
  For \<open>x -foo a b c\<close> and an empty table: \<open>foo\<close> holds \<open>a\<close>, and \<open>b\<close>, \<open>c\<close> are values of the
  default argument, also when \<open>-bar\<close> follows.
\<close>

theorem unexpected_named_one_value_witness:
  "startsWith ''-foo'' (CHR ''-'')
   \<and> \<not> startsWith ''a'' (CHR ''-'') \<and> \<not> startsWith ''b'' (CHR ''-'')
   \<and> \<not> startsWith ''c'' (CHR ''-'')
   \<and> startsWith ''-bar'' (CHR ''-'')
   \<and> name (parse_loop Map.empty ([''x''] @ [''-foo''])) \<notin> dom (Map.empty :: string \<rightharpoonup> string list)
   \<and> map_option (\<lambda>table. (table ''foo'', table []))
        (parseRawArguments (''app'' # [''x''] @ [''-foo''] @ [''a'', ''b'', ''c'']) Map.empty)
       = Some (Some [''a''], Some [''b'', ''c''])
   \<and> map_option (\<lambda>table. (table ''foo'', table []))
        (parseRawArguments (''app'' # [''x''] @ [''-foo''] @ [''a'', ''b'', ''c''] @ [''-bar''])
           Map.empty)
       = Some (Some [''a''], Some [''b'', ''c''])"
  using unexpected_named_one_value [of "''-foo''" "[''a'', ''b'', ''c'']" "''-bar''" Map.empty
      "[''x'']" "''app''"]
  by (simp add: parse_defs)

section \<open>Properties of the theme update broadcast\<close>

lemma idents_unfold: "idents t = ident t # concat (map idents (childItems t))"
  by (cases t) simp

lemma ascendant_no_children: "childItems c = [] \<Longrightarrow> broadcastAscendantUpdate c a = []"
  by (cases c) simp

text \<open>The test for children before the recursive call changes nothing.\<close>

lemma ascendant_unfold:
  "broadcastAscendantUpdate t a =
     concat (map (\<lambda>child. (ident child, styledEvent a) # broadcastAscendantUpdate child a)
       (childItems t))"
proof (cases t)
  case (QQuickItem i st cs)
  have "\<And>child. (if length (childItems child) > 0 then broadcastAscendantUpdate child a else [])
          = broadcastAscendantUpdate child a"
    by (simp add: ascendant_no_children)
  then show ?thesis using QQuickItem by simp
qed

text \<open>The receivers of the ascendant broadcast are the items below, in pre-order.\<close>

lemma ascendant_receivers:
  "map fst (broadcastAscendantUpdate t a) = concat (map idents (childItems t))"
proof (induction t)
  case (QQuickItem i st cs)
  have "map fst (broadcastAscendantUpdate (QQuickItem i st cs) a)
          = concat (map (\<lambda>child. ident child # map fst (broadcastAscendantUpdate child a)) cs)"
    by (subst ascendant_unfold) (simp add: map_concat comp_def)
  also have "\<dots> = concat (map idents cs)"
  proof -
    have "map (\<lambda>child. ident child # map fst (broadcastAscendantUpdate child a)) cs
            = map idents cs"
    proof (rule map_cong [OF refl])
      fix c assume "c \<in> set cs"
      then have "map fst (broadcastAscendantUpdate c a) = concat (map idents (childItems c))"
        by (rule QQuickItem.IH)
      then show "ident c # map fst (broadcastAscendantUpdate c a) = idents c"
        by (simp add: idents_unfold [of c])
    qed
    then show ?thesis by (rule arg_cong)
  qed
  finally show ?case by simp
qed

lemma ascendant_events:
  "e \<in> set (broadcastAscendantUpdate t a) \<Longrightarrow> snd e = styledEvent a"
proof (induction t arbitrary: e)
  case (QQuickItem i st cs)
  then show ?case by (cases e) (fastforce split: if_splits)
qed

lemma child_idents_subset:
  "c \<in> set (childItems t) \<Longrightarrow> set (idents c) \<subseteq> set (concat (map idents (childItems t)))"
  by auto

lemma descendant_idents_subset:
  "descendant d t \<Longrightarrow> set (idents d) \<subseteq> set (concat (map idents (childItems t)))"
proof (induction rule: descendant.induct)
  case (child c t)
  then show ?case by (rule child_idents_subset)
next
  case (deeper c t d)
  have "set (idents d) \<subseteq> set (idents c)"
    using deeper.IH by (subst (2) idents_unfold) auto
  also have "\<dots> \<subseteq> set (concat (map idents (childItems t)))"
    using deeper.hyps(1) by (rule child_idents_subset)
  finally show ?case .
qed

lemma descendant_ident_below:
  "descendant d t \<Longrightarrow> ident d \<in> set (concat (map idents (childItems t)))"
  using descendant_idents_subset [of d t] idents_unfold [of d] by auto

lemma below_is_descendant:
  "i \<in> set (concat (map idents (childItems t))) \<Longrightarrow> \<exists>d. descendant d t \<and> ident d = i"
proof (induction t)
  case (QQuickItem j st cs)
  then obtain c where c: "c \<in> set cs" and i: "i \<in> set (idents c)" by auto
  from i have "i = ident c \<or> i \<in> set (concat (map idents (childItems c)))"
    by (subst (asm) idents_unfold) simp
  then show ?case
  proof
    assume "i = ident c"
    moreover have "descendant c (QQuickItem j st cs)"
      by (rule descendant.child) (simp add: c)
    ultimately show ?thesis by blast
  next
    assume "i \<in> set (concat (map idents (childItems c)))"
    with QQuickItem.IH [OF c] obtain d where d: "descendant d c" "ident d = i" by blast
    have "descendant d (QQuickItem j st cs)"
      by (rule descendant.deeper [OF _ d(1)]) (simp add: c)
    with d(2) show ?thesis by blast
  qed
qed

lemma distinct_count_one: "distinct xs \<Longrightarrow> x \<in> set xs \<Longrightarrow> count_list xs x = 1"
  by (induction xs) auto

text \<open>
  C7: when the parent of the extended item changes, \<open>handleParentChanged\<close> broadcasts a
  theme update event (the styled-item event with a null ascendant) below the item. In a
  visual tree whose items are distinct, every item strictly below the extended item is a
  receiver exactly once, and every delivery is that event to such an item. All of these
  deliveries are made by the call itself: they are the value it returns.
\<close>

theorem parent_change_reaches_every_descendant_once:
  assumes "distinct (idents m_item)"
  shows "(\<forall>d. descendant d m_item \<longrightarrow>
            count_list (map fst (handleParentChanged m_item newParent)) (ident d) = 1)
       \<and> (\<forall>e \<in> set (handleParentChanged m_item newParent).
            snd e = styledEvent None \<and> (\<exists>d. descendant d m_item \<and> ident d = fst e))"
proof -
  have recv: "map fst (handleParentChanged m_item newParent)
                = concat (map idents (childItems m_item))"
    by (simp add: handleParentChanged_def ascendant_receivers)
  from assms have dist: "distinct (concat (map idents (childItems m_item)))"
    by (subst (asm) idents_unfold) simp
  have "count_list (map fst (handleParentChanged m_item newParent)) (ident d) = 1"
    if "descendant d m_item" for d
    unfolding recv using dist descendant_ident_below [OF that] by (rule distinct_count_one)
  moreover have "snd e = styledEvent None \<and> (\<exists>d. descendant d m_item \<and> ident d = fst e)"
    if "e \<in> set (handleParentChanged m_item newParent)" for e
  proof
    from that show "snd e = styledEvent None"
      unfolding handleParentChanged_def by (rule ascendant_events)
    from that have "fst e \<in> set (map fst (handleParentChanged m_item newParent))" by simp
    then show "\<exists>d. descendant d m_item \<and> ident d = fst e"
      unfolding recv by (rule below_is_descendant)
  qed
  ultimately show ?thesis by blast
qed

lemma example_tree_distinct: "distinct (idents example_tree)"
  by (simp add: example_tree_def styled_child_def)

lemma example_descendants:
  "descendant styled_child example_tree"
  "descendant (QQuickItem 2 False []) styled_child"
  "descendant (QQuickItem 2 False []) example_tree"
proof -
  show c: "descendant styled_child example_tree"
    by (rule descendant.child) (simp add: example_tree_def)
  show d: "descendant (QQuickItem 2 False []) styled_child"
    by (rule descendant.child) (simp add: styled_child_def)
  show "descendant (QQuickItem 2 False []) example_tree"
    by (rule descendant.deeper [OF _ d]) (simp add: example_tree_def)
qed

theorem parent_change_reaches_every_descendant_once_witness:
  "distinct (idents example_tree)
   \<and> descendant (QQuickItem 2 False []) example_tree
   \<and> count_list (map fst (handleParentChanged example_tree None)) 2 = 1
   \<and> handleParentChanged example_tree None
       = [(1, styledEvent None), (2, styledEvent None), (3, styledEvent None)]"
proof -
  have "count_list (map fst (handleParentChanged example_tree None))
          (ident (QQuickItem 2 False [])) = 1"
    using parent_change_reaches_every_descendant_once [OF example_tree_distinct, of None]
      example_descendants(3) by blast
  moreover have "handleParentChanged example_tree None
       = [(1, styledEvent None), (2, styledEvent None), (3, styledEvent None)]"
    by (simp add: handleParentChanged_def example_tree_def styled_child_def)
  ultimately show ?thesis
    using example_tree_distinct example_descendants(3) by simp
qed

lemma theme_unfold:
  "broadcastThemeUpdate t th =
     concat (map (\<lambda>child. (ident child, themeEvent th) #
        (if length (childItems child) > 0 \<and> \<not> isStyledItem child
         then broadcastThemeUpdate child th else [])) (childItems t))"
  by (cases t) simp

lemma theme_receivers_below:
  "fst ` set (broadcastThemeUpdate t th) \<subseteq> set (concat (map idents (childItems t)))"
proof (induction t)
  case (QQuickItem i st cs)
  show ?case
  proof
    fix x assume "x \<in> fst ` set (broadcastThemeUpdate (QQuickItem i st cs) th)"
    then obtain c where c: "c \<in> set cs"
      and x: "x = ident c \<or> x \<in> fst ` set (broadcastThemeUpdate c th)"
      by (auto split: if_splits)
    from x have "x \<in> set (idents c)"
      using QQuickItem.IH [OF c] by (subst idents_unfold) auto
    with c show "x \<in> set (concat (map idents (childItems (QQuickItem i st cs))))"
      by auto
  qed
qed

lemma siblings_disjoint:
  "distinct (concat (map idents cs)) \<Longrightarrow> c \<in> set cs \<Longrightarrow> c' \<in> set cs \<Longrightarrow> c \<noteq> c'
     \<Longrightarrow> set (idents c) \<inter> set (idents c') = {}"
proof (induction cs)
  case Nil
  then show ?case by simp
next
  case (Cons x xs)
  then show ?case by fastforce
qed

lemma child_distinct:
  "distinct (idents t) \<Longrightarrow> c \<in> set (childItems t) \<Longrightarrow> distinct (idents c)"
  by (subst (asm) idents_unfold) (auto simp: distinct_concat_iff)

text \<open>
  One level of the theme broadcast: an identity from below a child is not a receiver if
  the child is styled, or if the broadcast below the child does not reach it.
\<close>

lemma theme_skips:
  assumes dist: "distinct (idents t)"
      and c0: "c0 \<in> set (childItems t)"
      and i: "i \<in> set (concat (map idents (childItems c0)))"
      and sub: "\<not> isStyledItem c0 \<Longrightarrow> i \<notin> fst ` set (broadcastThemeUpdate c0 th)"
  shows "i \<notin> fst ` set (broadcastThemeUpdate t th)"
proof
  assume "i \<in> fst ` set (broadcastThemeUpdate t th)"
  then obtain c where c: "c \<in> set (childItems t)"
    and x: "i = ident c \<or> (\<not> isStyledItem c \<and> i \<in> fst ` set (broadcastThemeUpdate c th))"
    by (subst (asm) theme_unfold) (auto split: if_splits)
  from dist have dcs: "distinct (concat (map idents (childItems t)))"
    by (subst (asm) idents_unfold) simp
  from i have i0: "i \<in> set (idents c0)" by (subst idents_unfold) simp
  from x theme_receivers_below [of c th] have ic: "i \<in> set (idents c)"
    by (subst idents_unfold) auto
  show False
  proof (cases "c = c0")
    case True
    from child_distinct [OF dist c0] i have "i \<noteq> ident c0"
      by (subst (asm) idents_unfold) auto
    with x True sub show False by auto
  next
    case False
    from siblings_disjoint [OF dcs c c0 False] ic i0 show False by auto
  qed
qed

lemma theme_skips_styled_subtree:
  "descendant c t \<Longrightarrow> distinct (idents t) \<Longrightarrow> isStyledItem c
     \<Longrightarrow> i \<in> set (concat (map idents (childItems c)))
     \<Longrightarrow> i \<notin> fst ` set (broadcastThemeUpdate t th)"
proof (induction rule: descendant.induct)
  case (child c t)
  show ?case
    by (rule theme_skips [OF child(2) child(1) child(4)]) (simp add: child(3))
next
  case (deeper c0 t c)
  have d0: "distinct (idents c0)" by (rule child_distinct [OF deeper(4) deeper(1)])
  have "i \<in> set (idents c)" using deeper(6) by (subst idents_unfold) simp
  with descendant_idents_subset [OF deeper(2)]
  have i0: "i \<in> set (concat (map idents (childItems c0)))" by auto
  show ?case
    by (rule theme_skips [OF deeper(4) deeper(1) i0]) (rule deeper.IH [OF d0 deeper(5) deeper(6)])
qed

text \<open>
  C10: in a visual tree whose items are distinct, let \<open>c\<close> be a styled item below the
  item \<open>t\<close> on which the broadcast is called, and \<open>d\<close> an item below \<open>c\<close>. The theme
  broadcast on \<open>t\<close> never delivers to \<open>d\<close>, whereas the ascendant broadcast on \<open>t\<close> does;
  and if \<open>c\<close> is a child of \<open>t\<close>, the theme broadcast delivers the theme event to \<open>c\<close>
  itself.
\<close>

theorem theme_broadcast_stops_at_styled:
  assumes "distinct (idents t)" and "descendant c t" and "isStyledItem c" and "descendant d c"
  shows "ident d \<notin> fst ` set (broadcastThemeUpdate t theme)
       \<and> ident d \<in> fst ` set (broadcastAscendantUpdate t ascendantStyled)
       \<and> (c \<in> set (childItems t) \<longrightarrow>
            (ident c, themeEvent theme) \<in> set (broadcastThemeUpdate t theme))"
proof -
  have below: "ident d \<in> set (concat (map idents (childItems c)))"
    using assms(4) by (rule descendant_ident_below)
  have "ident d \<notin> fst ` set (broadcastThemeUpdate t theme)"
    using assms(2) assms(1) assms(3) below by (rule theme_skips_styled_subtree)
  moreover have "ident d \<in> fst ` set (broadcastAscendantUpdate t ascendantStyled)"
  proof -
    have "set (idents c) \<subseteq> set (concat (map idents (childItems t)))"
      using assms(2) by (rule descendant_idents_subset)
    moreover from below have "ident d \<in> set (idents c)" by (subst idents_unfold) simp
    ultimately have "ident d \<in> set (map fst (broadcastAscendantUpdate t ascendantStyled))"
      unfolding ascendant_receivers by auto
    then show ?thesis by simp
  qed
  moreover have "(ident c, themeEvent theme) \<in> set (broadcastThemeUpdate t theme)"
    if "c \<in> set (childItems t)"
    using that by (subst theme_unfold) auto
  ultimately show ?thesis by blast
qed

theorem theme_broadcast_stops_at_styled_witness:
  "distinct (idents example_tree)
   \<and> descendant styled_child example_tree \<and> isStyledItem styled_child
   \<and> descendant (QQuickItem 2 False []) styled_child
   \<and> 2 \<notin> fst ` set (broadcastThemeUpdate example_tree None)
   \<and> 2 \<in> fst ` set (broadcastAscendantUpdate example_tree None)
   \<and> (1, themeEvent None) \<in> set (broadcastThemeUpdate example_tree None)
   \<and> broadcastThemeUpdate example_tree None = [(1, themeEvent None), (3, themeEvent None)]"
proof -
  have s: "isStyledItem styled_child" and i: "ident styled_child = 1"
    by (simp_all add: styled_child_def)
  have c: "styled_child \<in> set (childItems example_tree)"
    by (simp add: example_tree_def)
  have "broadcastThemeUpdate example_tree None = [(1, themeEvent None), (3, themeEvent None)]"
    by (simp add: example_tree_def styled_child_def)
  with theme_broadcast_stops_at_styled [OF example_tree_distinct example_descendants(1) s
      example_descendants(2), of None None] c i s
    example_tree_distinct example_descendants(1) example_descendants(2)
  show ?thesis by simp
qed

end
